theory Spec2Isabelle
  imports Main
begin

section \<open>Data model of the event emitter\<close>

text \<open>
  The development embeds the class \<^verbatim>\<open>EventEmitter\<close> of \<^verbatim>\<open>src/index.ts\<close>.
  Event names are strings. JavaScript values that travel as listener arguments or as
  thrown values are numbers, strings, or the \<^verbatim>\<open>TypeError\<close> objects raised by the
  runtime itself (the string they carry stands for the message of the engine).
\<close>

datatype jsval = VNum int | VStr string | VTypeError string

text \<open>
  A function reference is either a caller-supplied listener (identified by a number) or
  a once-wrapper closure. A wrapper carries the identity it received at creation and the
  two values its closure captures: the event name and the wrapped listener. Reference
  equality of the source (\<^verbatim>\<open>===\<close>) is equality of these terms.
\<close>

datatype fn = Plain nat | Wrapper nat string fn

text \<open>The \<^verbatim>\<open>listener\<close> property: present on wrappers only.\<close>

fun listener_of :: "fn \<Rightarrow> fn option" where
  "listener_of (Plain i) = None"
| "listener_of (Wrapper w e l) = Some l"

text \<open>The ceiling \<^verbatim>\<open>maxListeners\<close> ranges over the integers and \<^verbatim>\<open>Infinity\<close>.\<close>

datatype limit = Fin int | Infinity

fun length_le :: "nat \<Rightarrow> limit \<Rightarrow> bool" where
  "length_le n (Fin m) = (int n \<le> m)"
| "length_le n Infinity = True"

text \<open>
  The emitter instance. \<^verbatim>\<open>events\<close> is a plain object whose values are array
  references; \<open>arrays\<close> is the store these references point into, because
  \<^verbatim>\<open>push\<close> and \<^verbatim>\<open>unshift\<close> mutate an array in place while \<^verbatim>\<open>filter\<close>
  allocates a new one, and a running \<^verbatim>\<open>forEach\<close> keeps the reference it started with.
  The last three fields record what the emitter does to its environment: every listener
  invocation, every max-listeners diagnostic (count, event, ceiling), and every rejection
  handler attached to a promise returned by a listener.
\<close>

record emitter =
  maxListeners :: limit
  events :: "string \<rightharpoonup> nat"
  arrays :: "nat \<Rightarrow> fn list"
  next_array :: nat
  warningEmitted :: "string set"
  onceListeners :: "string \<rightharpoonup> fn list"
  captureRejections :: bool
  next_wrapper :: nat
  calls :: "(fn \<times> jsval list) list"
  warnings :: "(nat \<times> string \<times> limit) list"
  handlers :: "jsval option list"

text \<open>A call either returns a value or throws one; both leave a state behind.\<close>

datatype 'a result = Ret 'a emitter | Exc jsval emitter

fun state_of :: "'a result \<Rightarrow> emitter" where
  "state_of (Ret x s) = s"
| "state_of (Exc v s) = s"

fun value_of :: "'a result \<Rightarrow> jsval + 'a" where
  "value_of (Ret x s) = Inr x"
| "value_of (Exc v s) = Inl v"

text \<open>
  What a listener returns: a plain value, or a promise that later fulfils (\<open>None\<close>)
  or rejects with a value.
\<close>

datatype ret = RValue | RPromise "jsval option"

text \<open>
  Listeners are code of the caller. A listener body is the sequence of emitter calls it
  makes (on the same emitter), possibly ending in a \<^verbatim>\<open>throw\<close>, followed by its return
  value; the body may depend on the arguments it receives. An exception raised by one of
  the calls is not caught by the listener.
\<close>

datatype cmd =
    COn string fn
  | CPrepend string fn
  | COnce string fn
  | CPrependOnce string fn
  | COff string fn
  | CRemoveAllListeners "string option" "fn option"
  | CSetMaxListeners limit
  | CEmit string "jsval list"
  | CThrow jsval

type_synonym bodies = "nat \<Rightarrow> jsval list \<Rightarrow> cmd list \<times> ret"

section \<open>Property lookup on the registry object\<close>

text \<open>
  \<^verbatim>\<open>events\<close> and \<^verbatim>\<open>warningEmitted\<close> are created as \<^verbatim>\<open>{}\<close>, so a read of
  \<^verbatim>\<open>this.events[ event ]\<close> that finds no own property continues on
  \<^verbatim>\<open>Object.prototype\<close> and yields a truthy non-array value for the names below.
\<close>

definition object_prototype_keys :: "string list" where
  "object_prototype_keys =
     [''constructor'', ''hasOwnProperty'', ''isPrototypeOf'', ''propertyIsEnumerable'',
      ''toLocaleString'', ''toString'', ''valueOf'', ''__proto__'',
      ''__defineGetter__'', ''__defineSetter__'', ''__lookupGetter__'', ''__lookupSetter__'']"

datatype slot = Undefined | Inherited | Arr nat

definition get_events :: "emitter \<Rightarrow> string \<Rightarrow> slot" where
  "get_events s e =
     (case events s e of
        Some a \<Rightarrow> Arr a
      | None \<Rightarrow> if e \<in> set object_prototype_keys then Inherited else Undefined)"

definition get_warningEmitted :: "emitter \<Rightarrow> string \<Rightarrow> bool" where
  "get_warningEmitted s e = (e \<in> warningEmitted s \<or> e \<in> set object_prototype_keys)"

section \<open>Construction\<close>

text \<open>
  \<open>d\<close> is the value of the static \<^verbatim>\<open>defaultMaxListeners\<close> at construction time,
  \<open>opt\<close> the \<^verbatim>\<open>captureRejections\<close> option (\<^verbatim>\<open>?? false\<close> when absent).
\<close>

datatype error = RangeError

fun negative :: "limit \<Rightarrow> bool" where
  "negative (Fin m) = (m < 0)"
| "negative Infinity = False"

definition initial :: "limit \<Rightarrow> bool \<Rightarrow> emitter" where
  "initial d c =
     \<lparr> maxListeners = d, events = Map.empty, arrays = (\<lambda>a. []), next_array = 0,
       warningEmitted = {}, onceListeners = Map.empty, captureRejections = c,
       next_wrapper = 0, calls = [], warnings = [], handlers = [] \<rparr>"

definition new_emitter :: "limit \<Rightarrow> bool option \<Rightarrow> error + emitter" where
  "new_emitter d opt =
     (if negative d then Inl RangeError
      else Inr (initial d (case opt of Some b \<Rightarrow> b | None \<Rightarrow> False)))"

section \<open>Registration, removal and the max-listeners check\<close>

definition emitMaxListenersExceeded :: "string \<Rightarrow> emitter \<Rightarrow> emitter" where
  "emitMaxListenersExceeded e s =
     (if maxListeners s = Fin 0 then s
      else if maxListeners s = Infinity then s
      else if get_warningEmitted s e then s
      else (case get_events s e of
              Undefined \<Rightarrow> s
            | Inherited \<Rightarrow> s
            | Arr a \<Rightarrow>
                if length_le (length (arrays s a)) (maxListeners s) then s
                else s\<lparr> warningEmitted := insert e (warningEmitted s),
                        warnings := warnings s @ [(length (arrays s a), e, maxListeners s)] \<rparr>))"

text \<open>
  \<^verbatim>\<open>this.events[ event ] ||= []\<close> assigns a fresh array only when the read is falsy;
  on an inherited value the following \<^verbatim>\<open>.push\<close> is not a function.
\<close>

definition on :: "string \<Rightarrow> fn \<Rightarrow> emitter \<Rightarrow> unit result" where
  "on e f s =
     (case get_events s e of
        Inherited \<Rightarrow> Exc (VTypeError ''push is not a function'') s
      | Undefined \<Rightarrow>
          Ret () (emitMaxListenersExceeded e
            (s\<lparr> events := (events s)(e \<mapsto> next_array s),
                arrays := (arrays s)(next_array s := [f]),
                next_array := Suc (next_array s) \<rparr>))
      | Arr a \<Rightarrow>
          Ret () (emitMaxListenersExceeded e
            (s\<lparr> arrays := (arrays s)(a := arrays s a @ [f]) \<rparr>)))"

definition prepend :: "string \<Rightarrow> fn \<Rightarrow> emitter \<Rightarrow> unit result" where
  "prepend e f s =
     (case get_events s e of
        Inherited \<Rightarrow> Exc (VTypeError ''unshift is not a function'') s
      | Undefined \<Rightarrow>
          Ret () (emitMaxListenersExceeded e
            (s\<lparr> events := (events s)(e \<mapsto> next_array s),
                arrays := (arrays s)(next_array s := [f]),
                next_array := Suc (next_array s) \<rparr>))
      | Arr a \<Rightarrow>
          Ret () (emitMaxListenersExceeded e
            (s\<lparr> arrays := (arrays s)(a := f # arrays s a) \<rparr>)))"

definition get_once :: "emitter \<Rightarrow> string \<Rightarrow> fn list" where
  "get_once s e = (case onceListeners s e of Some ws \<Rightarrow> ws | None \<Rightarrow> [])"

definition createOnceWrapper :: "string \<Rightarrow> fn \<Rightarrow> emitter \<Rightarrow> fn \<times> emitter" where
  "createOnceWrapper e l s =
     (let onceWrapper = Wrapper (next_wrapper s) e l
      in (onceWrapper,
          s\<lparr> onceListeners := (onceListeners s)(e \<mapsto> get_once s e @ [onceWrapper]),
             next_wrapper := Suc (next_wrapper s) \<rparr>))"

definition once :: "string \<Rightarrow> fn \<Rightarrow> emitter \<Rightarrow> unit result" where
  "once e l s = (case createOnceWrapper e l s of (w, s') \<Rightarrow> on e w s')"

definition prependOnce :: "string \<Rightarrow> fn \<Rightarrow> emitter \<Rightarrow> unit result" where
  "prependOnce e l s = (case createOnceWrapper e l s of (w, s') \<Rightarrow> prepend e w s')"

text \<open>
  The removal target of \<^verbatim>\<open>off\<close>: \<^verbatim>\<open>onceWrappers?.pop() || listener\<close>, where
  \<^verbatim>\<open>onceWrappers\<close> are the entries of the once-index whose \<^verbatim>\<open>listener\<close> is the
  argument.
\<close>

definition off_target :: "fn list \<Rightarrow> fn \<Rightarrow> fn" where
  "off_target onceL l =
     (let onceWrappers = filter (\<lambda>w. listener_of w = Some l) onceL
      in if onceWrappers = [] then l else last onceWrappers)"

definition off :: "string \<Rightarrow> fn \<Rightarrow> emitter \<Rightarrow> unit result" where
  "off e l s =
     (case get_events s e of
        Undefined \<Rightarrow> Ret () s
      | Inherited \<Rightarrow> Exc (VTypeError ''filter is not a function'') s
      | Arr a \<Rightarrow>
          (let originalListener = off_target (get_once s e) l;
               popped = filter (\<lambda>w. w \<noteq> originalListener) (get_once s e);
               kept = filter (\<lambda>x. x \<noteq> originalListener) (arrays s a)
           in Ret ()
                (s\<lparr> events := (if kept = [] then (events s)(e := None)
                               else (events s)(e \<mapsto> next_array s)),
                    arrays := (arrays s)(next_array s := kept),
                    next_array := Suc (next_array s),
                    onceListeners := (if popped = [] then (onceListeners s)(e := None)
                                      else (onceListeners s)(e \<mapsto> popped)) \<rparr>)))"

text \<open>
  \<^verbatim>\<open>rawListeners\<close> copies the array with a spread, which fails on an inherited
  (non-iterable) value.
\<close>

definition rawListeners :: "string \<Rightarrow> emitter \<Rightarrow> jsval + fn list" where
  "rawListeners e s =
     (case get_events s e of
        Undefined \<Rightarrow> Inr []
      | Inherited \<Rightarrow> Inl (VTypeError ''is not iterable'')
      | Arr a \<Rightarrow> Inr (arrays s a))"

fun off_matching :: "string \<Rightarrow> fn \<Rightarrow> fn list \<Rightarrow> emitter \<Rightarrow> unit result" where
  "off_matching e l [] s = Ret () s"
| "off_matching e l (x # xs) s =
     (if x = l \<or> listener_of x = Some l
      then (case off e l s of
              Exc v s' \<Rightarrow> Exc v s'
            | Ret u s' \<Rightarrow> off_matching e l xs s')
      else off_matching e l xs s)"

text \<open>The event argument is tested by truthiness: absent and the empty string are falsy.\<close>

fun truthy_event :: "string option \<Rightarrow> bool" where
  "truthy_event None = False"
| "truthy_event (Some e) = (e \<noteq> [])"

definition removeAllListeners :: "string option \<Rightarrow> fn option \<Rightarrow> emitter \<Rightarrow> unit result" where
  "removeAllListeners eo lo s =
     (if truthy_event eo then
        (case lo of
           Some l \<Rightarrow>
             (case rawListeners (the eo) s of
                Inl v \<Rightarrow> Exc v s
              | Inr xs \<Rightarrow> off_matching (the eo) l xs s)
         | None \<Rightarrow>
             Ret () (s\<lparr> events := (events s)(the eo := None),
                        onceListeners := (onceListeners s)(the eo := None) \<rparr>))
      else Ret () (s\<lparr> events := Map.empty, onceListeners := Map.empty \<rparr>))"

definition setMaxListeners :: "limit \<Rightarrow> emitter \<Rightarrow> emitter" where
  "setMaxListeners n s = s\<lparr> maxListeners := n \<rparr>"

text \<open>
  The calls a listener body can make that do not dispatch. (\<^verbatim>\<open>emit\<close> is run by
  \<open>exec_all\<close> below, which never uses the last equation.)
\<close>

fun api :: "cmd \<Rightarrow> emitter \<Rightarrow> unit result" where
  "api (COn e f) s = on e f s"
| "api (CPrepend e f) s = prepend e f s"
| "api (COnce e f) s = once e f s"
| "api (CPrependOnce e f) s = prependOnce e f s"
| "api (COff e f) s = off e f s"
| "api (CRemoveAllListeners eo lo) s = removeAllListeners eo lo s"
| "api (CSetMaxListeners n) s = Ret () (setMaxListeners n s)"
| "api (CThrow v) s = Exc v s"
| "api (CEmit e args) s = Ret () s"

section \<open>Emission\<close>

fun is_promise :: "ret \<Rightarrow> bool" where
  "is_promise RValue = False"
| "is_promise (RPromise r) = True"

text \<open>
  \<^verbatim>\<open>result.catch( ... )\<close> attaches a rejection handler to a returned promise. The handler
  runs on a later turn, as an \<^verbatim>\<open>emit\<close> of \<^verbatim>\<open>error\<close> made from top level, and is not
  part of the dispatch that attached it; the model records the promise.
\<close>

fun attach :: "ret \<Rightarrow> emitter \<Rightarrow> emitter" where
  "attach RValue s = s"
| "attach (RPromise r) s = s\<lparr> handlers := handlers s @ [r] \<rparr>"

text \<open>
  \<^verbatim>\<open>emit\<close>, the loop of its \<^verbatim>\<open>forEach\<close>, the invocation of one entry and the run of
  a listener body call one another. \<^verbatim>\<open>forEach\<close> reads the length of the array once,
  before the first invocation, and reads each element when it reaches its index; an index
  that the array does not have is skipped. A listener body may emit again, so a dispatch
  need not end: the first argument is fuel, one unit of which is spent at each nested
  \<^verbatim>\<open>emit\<close>, and the result \<open>None\<close> says that the fuel did not suffice. The log entry
  of an invocation is written when the invocation starts.
\<close>

function
    emit :: "nat \<Rightarrow> bodies \<Rightarrow> string \<Rightarrow> jsval list \<Rightarrow> emitter \<Rightarrow> bool result option"
and forEach :: "nat \<Rightarrow> bodies \<Rightarrow> string \<Rightarrow> jsval list \<Rightarrow> nat \<Rightarrow> nat \<Rightarrow> nat \<Rightarrow> emitter \<Rightarrow> unit result option"
and call :: "nat \<Rightarrow> bodies \<Rightarrow> fn \<Rightarrow> jsval list \<Rightarrow> emitter \<Rightarrow> ret result option"
and exec_all :: "nat \<Rightarrow> bodies \<Rightarrow> cmd list \<Rightarrow> emitter \<Rightarrow> unit result option"
where
  "emit 0 B e args s = None"
| "emit (Suc n) B e args s =
     (case get_events s e of
        Undefined \<Rightarrow> Some (Ret False s)
      | Inherited \<Rightarrow> Some (Exc (VTypeError ''forEach is not a function'') s)
      | Arr a \<Rightarrow>
          (case forEach n B e args a (length (arrays s a)) 0 s of
             None \<Rightarrow> None
           | Some (Exc v s') \<Rightarrow> Some (Exc v s')
           | Some (Ret u s') \<Rightarrow> Some (Ret True s')))"
| "forEach n B e args a len k s =
     (if len \<le> k then Some (Ret () s)
      else if length (arrays s a) \<le> k then forEach n B e args a len (Suc k) s
      else
        (case call n B (arrays s a ! k) args s of
           None \<Rightarrow> None
         | Some (Ret r s1) \<Rightarrow>
             forEach n B e args a len (Suc k)
               (if captureRejections s1 \<and> is_promise r \<and> e \<noteq> ''error''
                then attach r s1 else s1)
         | Some (Exc v s1) \<Rightarrow>
             if captureRejections s1 \<and> e \<noteq> ''error''
             then (case emit n B ''error'' [v] s1 of
                     None \<Rightarrow> None
                   | Some (Exc w s2) \<Rightarrow> Some (Exc w s2)
                   | Some (Ret b s2) \<Rightarrow> forEach n B e args a len (Suc k) s2)
             else Some (Exc v s1)))"
| "call n B (Plain i) args s =
     (case exec_all n B (fst (B i args)) (s\<lparr> calls := calls s @ [(Plain i, args)] \<rparr>) of
        None \<Rightarrow> None
      | Some (Exc v s') \<Rightarrow> Some (Exc v s')
      | Some (Ret u s') \<Rightarrow> Some (Ret (snd (B i args)) s'))"
| "call n B (Wrapper w e l) args s =
     (case off e (Wrapper w e l) (s\<lparr> calls := calls s @ [(Wrapper w e l, args)] \<rparr>) of
        Exc v s' \<Rightarrow> Some (Exc v s')
      | Ret u s1 \<Rightarrow>
          (case call n B l args s1 of
             None \<Rightarrow> None
           | Some (Exc v s2) \<Rightarrow> Some (Exc v s2)
           | Some (Ret r s2) \<Rightarrow> Some (Ret RValue s2)))"
| "exec_all n B [] s = Some (Ret () s)"
| "exec_all n B (c # cs) s =
     (case (case c of
              CEmit e args \<Rightarrow>
                (case emit n B e args s of
                   None \<Rightarrow> None
                 | Some (Exc v s') \<Rightarrow> Some (Exc v s')
                 | Some (Ret b s') \<Rightarrow> Some (Ret () s'))
            | _ \<Rightarrow> Some (api c s)) of
        None \<Rightarrow> None
      | Some (Exc v s') \<Rightarrow> Some (Exc v s')
      | Some (Ret u s') \<Rightarrow> exec_all n B cs s')"
  by pat_completeness auto
termination
  by (relation "inv_image (less_than <*lex*> less_than <*lex*> less_than)
        (\<lambda>x. case x of
           Inl (Inl (n, B, e, args, s)) \<Rightarrow> (n, 0, 0)
         | Inl (Inr (n, B, e, args, a, len, k, s)) \<Rightarrow> (n, 4, len - k)
         | Inr (Inl (n, B, f, args, s)) \<Rightarrow> (n, 3, size f)
         | Inr (Inr (n, B, cs, s)) \<Rightarrow> (n, 2, length cs))") auto

declare emit.simps [simp del] forEach.simps [simp del]

section \<open>Observations and concrete scenarios\<close>

text \<open>What a caller sees of a dispatch: its value or exception, and the invocation log.\<close>

definition outcome :: "'a result option \<Rightarrow> (jsval + 'a) option" where
  "outcome r = map_option value_of r"

definition trace :: "'a result option \<Rightarrow> (fn \<times> jsval list) list" where
  "trace r = (case r of Some x \<Rightarrow> calls (state_of x) | None \<Rightarrow> [])"

text \<open>The raw listeners of an event once a dispatch is over.\<close>

definition listeners_after :: "string \<Rightarrow> 'a result option \<Rightarrow> (jsval + fn list) option" where
  "listeners_after e r = map_option (\<lambda>x. rawListeners e (state_of x)) r"

text \<open>The emitter after a sequence of non-dispatching calls, each made from top level.\<close>

definition after :: "cmd list \<Rightarrow> emitter \<Rightarrow> emitter" where
  "after cs s = foldl (\<lambda>s c. state_of (api c s)) s cs"

text \<open>
  Listener bodies used in the concrete scenarios: listener 1 removes listener 2 from event
  \<^verbatim>\<open>e\<close>, listeners 3 and 4 throw, listener 7 emits \<^verbatim>\<open>e\<close> again, listener 9
  registers listener 6 on \<^verbatim>\<open>e\<close>, listener 10 prepends listener 6 to \<^verbatim>\<open>e\<close>, every
  other listener returns at once.
\<close>

definition demo :: bodies where
  "demo i args =
     (if i = 1 then ([COff ''e'' (Plain 2)], RValue)
      else if i = 3 then ([CThrow (VStr ''boom'')], RValue)
      else if i = 4 then ([CThrow (VStr ''again'')], RValue)
      else if i = 7 then ([CEmit ''e'' [VNum 8]], RValue)
      else if i = 9 then ([COn ''e'' (Plain 6)], RValue)
      else if i = 10 then ([CPrepend ''e'' (Plain 6)], RValue)
      else ([], RValue))"

section \<open>Listeners that only return\<close>


definition ret_of :: "bodies \<Rightarrow> jsval list \<Rightarrow> fn \<Rightarrow> ret" where
  "ret_of B args f = (case f of Plain i \<Rightarrow> snd (B i args) | Wrapper w e l \<Rightarrow> RValue)"

definition returned :: "bool \<Rightarrow> bodies \<Rightarrow> jsval list \<Rightarrow> emitter \<Rightarrow> fn \<Rightarrow> emitter" where
  "returned c B args s f =
     (if c then attach (ret_of B args f) (s\<lparr> calls := calls s @ [(f, args)] \<rparr>)
      else s\<lparr> calls := calls s @ [(f, args)] \<rparr>)"

definition returned_all :: "bool \<Rightarrow> bodies \<Rightarrow> jsval list \<Rightarrow> fn list \<Rightarrow> emitter \<Rightarrow> emitter" where
  "returned_all c B args fs s = foldl (returned c B args) s fs"


text \<open>The entries of an event, as \<^verbatim>\<open>forEach\<close> finds them when a dispatch begins.\<close>

definition entries :: "emitter \<Rightarrow> string \<Rightarrow> fn list" where
  "entries s e = (case get_events s e of Arr a \<Rightarrow> arrays s a | Undefined \<Rightarrow> [] | Inherited \<Rightarrow> [])"



section \<open>Sequences of public operations\<close>

text \<open>
  A caller makes the operations of a list one after the other from top level; an
  exception thrown by one of them reaches the caller, who goes on with the next. The
  result is \<open>None\<close> when a dispatch runs out of fuel.
\<close>

fun run_ops :: "nat \<Rightarrow> bodies \<Rightarrow> cmd list \<Rightarrow> emitter \<Rightarrow> emitter option" where
  "run_ops n B [] s = Some s"
| "run_ops n B (c # cs) s =
     (case exec_all n B [c] s of
        None \<Rightarrow> None
      | Some r \<Rightarrow> run_ops n B cs (state_of r))"



section \<open>Creation order of once-wrappers\<close>

text \<open>
  \<^verbatim>\<open>createOnceWrapper\<close> hands out wrapper identities in increasing order, so one
  wrapper was created before another when its identity is smaller.
\<close>

fun created_before :: "fn \<Rightarrow> fn \<Rightarrow> bool" where
  "created_before (Wrapper w e l) (Wrapper w' e' l') = (w < w')"
| "created_before (Wrapper w e l) (Plain i) = False"
| "created_before (Plain i) f = False"

text \<open>
  The invariant of the once-index: each sequence holds wrappers already created, in
  creation order.
\<close>

definition once_index_ordered :: "emitter \<Rightarrow> bool" where
  "once_index_ordered s =
     (\<forall>e ws. onceListeners s e = Some ws \<longrightarrow>
        sorted_wrt created_before ws \<and>
        (\<forall>w \<in> set ws. \<exists>i e' l. w = Wrapper i e' l \<and> i < next_wrapper s))"

section \<open>Consistency of the once-index with the registry\<close>





section \<open>Registry changes made during a dispatch\<close>






section \<open>Evaluation rules\<close>

lemmas eval_defs =
  initial_def on_def off_def prepend_def once_def prependOnce_def createOnceWrapper_def
  get_events_def object_prototype_keys_def emitMaxListenersExceeded_def get_warningEmitted_def
  off_target_def get_once_def rawListeners_def removeAllListeners_def setMaxListeners_def
  after_def demo_def outcome_def trace_def listeners_after_def emit.simps forEach.simps Let_def


section \<open>Scenarios of the test suite\<close>

text \<open>
  Two scenarios of \<^verbatim>\<open>__tests__/index.test.ts\<close>, run on the model. In the first, a
  listener and a second one are registered with \<^verbatim>\<open>on\<close> and \<^verbatim>\<open>once\<close>, and four
  \<^verbatim>\<open>off\<close> calls leave two registrations of the second listener. In the second, with
  rejection capture on, a throwing listener of \<^verbatim>\<open>erroredEvent\<close> makes the listener of
  \<^verbatim>\<open>error\<close> run with the thrown value.
\<close>

lemma test_off_order:
  "rawListeners ''event''
     (after [COn ''event'' (Plain 5), COnce ''event'' (Plain 5),
             COn ''event'' (Plain 6), COnce ''event'' (Plain 6), COnce ''event'' (Plain 6),
             COff ''event'' (Plain 5), COff ''event'' (Plain 5), COff ''event'' (Plain 5),
             COff ''event'' (Plain 6)]
        (initial (Fin 10) False)) =
   Inr [Plain 6, Wrapper 1 ''event'' (Plain 6)]"
  by (simp add: eval_defs)

lemma test_capture_rejections:
  "trace (emit (Suc (Suc 0)) demo ''erroredEvent'' [VStr ''Hello, World!'']
     (after [COn ''error'' (Plain 8), COn ''erroredEvent'' (Plain 3)] (initial (Fin 10) True))) =
   [(Plain 3, [VStr ''Hello, World!'']), (Plain 8, [VStr ''boom''])]"
  by (simp add: eval_defs)

section \<open>Bulk removal with a falsy event name\<close>

text \<open>
  Claim C10. \<^verbatim>\<open>removeAllListeners\<close> tests its event argument by truthiness, so a call
  with the empty string as event name takes the no-event branch: whatever the listener
  argument and whatever is registered, the whole registry and the whole once-index are
  cleared, not only the entries of the event \<^verbatim>\<open>""\<close>.
\<close>

theorem removeAllListeners_falsy_event:
  "removeAllListeners (Some '''') lo s =
     Ret () (s\<lparr> events := Map.empty, onceListeners := Map.empty \<rparr>)"
  by (simp add: removeAllListeners_def)

section \<open>Removing a listener registered several times\<close>

text \<open>
  Claim C2 says that \<^verbatim>\<open>off\<close> removes one entry per call. The code filters the array
  by reference, so every plain registration of the same listener goes at once: after two
  \<^verbatim>\<open>on\<close> calls with the same listener, a single \<^verbatim>\<open>off\<close> leaves the event
  without entries.
\<close>

theorem off_removes_every_copy:
  "rawListeners ''e''
     (after [COn ''e'' (Plain 0), COn ''e'' (Plain 0), COff ''e'' (Plain 0)]
        (initial (Fin 10) False)) = Inr []"
  by (simp add: eval_defs)

section \<open>Dispatch to listeners that return or throw at once\<close>

lemma attach_fields [simp]:
  "calls (attach r s) = calls s" "arrays (attach r s) = arrays s" "events (attach r s) = events s"
  "onceListeners (attach r s) = onceListeners s" "warnings (attach r s) = warnings s"
  "captureRejections (attach r s) = captureRejections s" "next_array (attach r s) = next_array s"
  "warningEmitted (attach r s) = warningEmitted s" "maxListeners (attach r s) = maxListeners s"
  "next_wrapper (attach r s) = next_wrapper s"
  by (cases r; simp)+

lemma returned_fields [simp]:
  "calls (returned c B args s f) = calls s @ [(f, args)]"
  "arrays (returned c B args s f) = arrays s" "events (returned c B args s f) = events s"
  "onceListeners (returned c B args s f) = onceListeners s"
  "warnings (returned c B args s f) = warnings s"
  "captureRejections (returned c B args s f) = captureRejections s"
  "next_array (returned c B args s f) = next_array s"
  "warningEmitted (returned c B args s f) = warningEmitted s"
  "maxListeners (returned c B args s f) = maxListeners s"
  "next_wrapper (returned c B args s f) = next_wrapper s"
  by (simp_all add: returned_def)

lemma returned_all_Nil [simp]: "returned_all c B args [] s = s"
  by (simp add: returned_all_def)

lemma returned_all_Cons [simp]:
  "returned_all c B args (f # fs) s = returned_all c B args fs (returned c B args s f)"
  by (simp add: returned_all_def)

lemma returned_all_append:
  "returned_all c B args (fs @ gs) s = returned_all c B args gs (returned_all c B args fs s)"
  by (simp add: returned_all_def)

lemma returned_all_fields [simp]:
  "calls (returned_all c B args fs s) = calls s @ map (\<lambda>f. (f, args)) fs"
  "arrays (returned_all c B args fs s) = arrays s"
  "events (returned_all c B args fs s) = events s"
  "onceListeners (returned_all c B args fs s) = onceListeners s"
  "warnings (returned_all c B args fs s) = warnings s"
  "captureRejections (returned_all c B args fs s) = captureRejections s"
  "next_array (returned_all c B args fs s) = next_array s"
  "warningEmitted (returned_all c B args fs s) = warningEmitted s"
  "maxListeners (returned_all c B args fs s) = maxListeners s"
  "next_wrapper (returned_all c B args fs s) = next_wrapper s"
  by (induction fs arbitrary: s; simp)+

lemma get_events_returned_all [simp]:
  "get_events (returned_all c B args fs s) e = get_events s e"
  by (simp add: get_events_def)





lemma forEach_done: "len \<le> k \<Longrightarrow> forEach n B e args a len k s = Some (Ret () s)"
  by (subst forEach.simps) simp











lemma error_not_inherited [simp]: "get_events s ''error'' \<noteq> Inherited"
  by (simp add: get_events_def object_prototype_keys_def split: option.splits)







text \<open>
  For an event name inherited from \<^verbatim>\<open>Object.prototype\<close>, such as \<^verbatim>\<open>toString\<close>, the
  guard of \<^verbatim>\<open>emit\<close> finds a truthy value that has no \<^verbatim>\<open>forEach\<close>.
\<close>

lemma emit_inherited_name:
  "get_events s e = Inherited \<Longrightarrow>
   emit (Suc n) B e args s = Some (Exc (VTypeError ''forEach is not a function'') s)"
  by (simp add: emit.simps)





section \<open>One-shot registration\<close>






section \<open>Invariants of dispatch\<close>

text \<open>
  A state predicate that the non-dispatching calls, the invocation log and the promise
  handlers preserve is preserved by \<^verbatim>\<open>emit\<close>, whatever the listeners do. \<open>Q\<close>
  constrains the function references found in arrays and \<open>C\<close> the calls made by
  listener bodies.
\<close>

lemma dispatch_invariant:
  fixes I :: "emitter \<Rightarrow> bool" and Q :: "fn \<Rightarrow> bool" and C :: "cmd \<Rightarrow> bool"
  assumes api: "\<And>c s. I s \<Longrightarrow> C c \<Longrightarrow> I (state_of (api c s))"
    and log: "\<And>s x. I s \<Longrightarrow> I (s\<lparr> calls := calls s @ [x] \<rparr>)"
    and att: "\<And>s r. I s \<Longrightarrow> I (attach r s)"
    and offw: "\<And>s w e l. I s \<Longrightarrow> Q (Wrapper w e l) \<Longrightarrow> I (state_of (off e (Wrapper w e l) s))"
    and inner: "\<And>w e l. Q (Wrapper w e l) \<Longrightarrow> Q l"
    and ent: "\<And>s a k. I s \<Longrightarrow> k < length (arrays s a) \<Longrightarrow> Q (arrays s a ! k)"
  shows "(\<forall>i xs. \<forall>c \<in> set (fst (B i xs)). C c) \<longrightarrow> I s \<longrightarrow>
           (\<forall>r. emit n B e args s = Some r \<longrightarrow> I (state_of r))"
    and "(\<forall>i xs. \<forall>c \<in> set (fst (B i xs)). C c) \<longrightarrow> I s \<longrightarrow>
           (\<forall>r. forEach n B e args a len k s = Some r \<longrightarrow> I (state_of r))"
    and "(\<forall>i xs. \<forall>c \<in> set (fst (B i xs)). C c) \<longrightarrow> I s \<longrightarrow> Q f \<longrightarrow>
           (\<forall>r. call n B f args s = Some r \<longrightarrow> I (state_of r))"
    and "(\<forall>i xs. \<forall>c \<in> set (fst (B i xs)). C c) \<longrightarrow> I s \<longrightarrow> (\<forall>c \<in> set cs. C c) \<longrightarrow>
           (\<forall>r. exec_all n B cs s = Some r \<longrightarrow> I (state_of r))"
proof (induction n B e args s and n B e args a len k s and n B f args s and n B cs s
    rule: emit_forEach_call_exec_all.induct)
  case (1 B e args s)
  then show ?case by (simp add: emit.simps)
next
  case (2 n B e args s)
  show ?case
  proof (intro impI allI)
    fix r
    assume b: "\<forall>i xs. \<forall>c \<in> set (fst (B i xs)). C c" and i: "I s"
      and r: "emit (Suc n) B e args s = Some r"
    show "I (state_of r)"
    proof (cases "get_events s e")
      case Undefined
      then show ?thesis using r i by (auto simp: emit.simps)
    next
      case Inherited
      then show ?thesis using r i by (auto simp: emit.simps)
    next
      case (Arr a)
      then obtain r' where r': "forEach n B e args a (length (arrays s a)) 0 s = Some r'"
        and st: "state_of r = state_of r'"
        using r by (auto simp: emit.simps split: option.splits result.splits)
      from "2" [OF Arr] b i r' have "I (state_of r')" by blast
      then show ?thesis using st by simp
    qed
  qed
next
  case (3 n B e args a len k s)
  show ?case
  proof (intro impI allI)
    fix r
    assume b: "\<forall>i xs. \<forall>c \<in> set (fst (B i xs)). C c" and i: "I s"
      and r: "forEach n B e args a len k s = Some r"
    show "I (state_of r)"
    proof (cases "len \<le> k")
      case True
      then show ?thesis using r i by (auto simp: forEach_done)
    next
      case nl: False
      show ?thesis
      proof (cases "length (arrays s a) \<le> k")
        case True
        then have "forEach n B e args a len (Suc k) s = Some r"
          using r nl by (subst (asm) forEach.simps) simp
        with "3.IH"(1) [OF nl True] b i show ?thesis by blast
      next
        case na: False
        then have q: "Q (arrays s a ! k)" using ent [OF i] by simp
        show ?thesis
        proof (cases "call n B (arrays s a ! k) args s")
          case None
          then show ?thesis using r nl na by (subst (asm) forEach.simps) simp
        next
          case (Some c)
          from "3.IH"(2) [OF nl na] b i q Some have ic: "I (state_of c)" by blast
          show ?thesis
          proof (cases c)
            case (Ret x s1)
            let ?s = "if captureRejections s1 \<and> is_promise x \<and> e \<noteq> ''error''
                      then attach x s1 else s1"
            have "forEach n B e args a len (Suc k) ?s = Some r"
              using r nl na Some Ret by (subst (asm) forEach.simps) simp
            moreover have "I ?s" using ic Ret att by simp
            ultimately show ?thesis
              using "3.IH"(3) [OF nl na Some Ret] b by blast
          next
            case (Exc v s1)
            then have i1: "I s1" using ic by simp
            show ?thesis
            proof (cases "captureRejections s1 \<and> e \<noteq> ''error''")
              case False
              then have "r = Exc v s1"
                using r nl na Some Exc by (subst (asm) forEach.simps) auto
              then show ?thesis using i1 by simp
            next
              case True
              show ?thesis
              proof (cases "emit n B ''error'' [v] s1")
                case None
                then show ?thesis
                  using r nl na Some Exc True by (subst (asm) forEach.simps) simp
              next
                case (Some c2)
                note em = this
                from "3.IH"(4) [OF nl na \<open>call n B (arrays s a ! k) args s = Some c\<close> Exc True]
                  b i1 em have i2: "I (state_of c2)" by blast
                show ?thesis
                proof (cases c2)
                  case (Exc w s2)
                  then have "r = Exc w s2"
                    using r nl na \<open>call n B (arrays s a ! k) args s = Some c\<close> \<open>c = Exc v s1\<close> True em
                    by (subst (asm) forEach.simps) simp
                  then show ?thesis using i2 Exc by simp
                next
                  case (Ret bb s2)
                  then have "forEach n B e args a len (Suc k) s2 = Some r"
                    using r nl na \<open>call n B (arrays s a ! k) args s = Some c\<close> \<open>c = Exc v s1\<close> True em
                    by (subst (asm) forEach.simps) simp
                  moreover have "I s2" using i2 Ret by simp
                  ultimately show ?thesis
                    using "3.IH"(5) [OF nl na \<open>call n B (arrays s a ! k) args s = Some c\<close> \<open>c = Exc v s1\<close> True em Ret] b
                    by blast
                qed
              qed
            qed
          qed
        qed
      qed
    qed
  qed
next
  case (4 n B i args s)
  show ?case
  proof (intro impI allI)
    fix r
    assume b: "\<forall>i xs. \<forall>c \<in> set (fst (B i xs)). C c" and i: "I s" and "Q (Plain i)"
      and r: "call n B (Plain i) args s = Some r"
    let ?s = "s\<lparr> calls := calls s @ [(Plain i, args)] \<rparr>"
    from r obtain r' where r': "exec_all n B (fst (B i args)) ?s = Some r'"
      and st: "state_of r = state_of r'"
      by (auto split: option.splits result.splits)
    have "I ?s" using i by (rule log)
    moreover have "\<forall>c \<in> set (fst (B i args)). C c" using b by blast
    ultimately have "I (state_of r')" using "4" b r' by blast
    then show "I (state_of r)" using st by simp
  qed
next
  case (5 n B w e l args s)
  show ?case
  proof (intro impI allI)
    fix r
    assume b: "\<forall>i xs. \<forall>c \<in> set (fst (B i xs)). C c" and i: "I s" and q: "Q (Wrapper w e l)"
      and r: "call n B (Wrapper w e l) args s = Some r"
    let ?s = "s\<lparr> calls := calls s @ [(Wrapper w e l, args)] \<rparr>"
    have i0: "I ?s" using i by (rule log)
    have i1: "I (state_of (off e (Wrapper w e l) ?s))" using i0 q by (rule offw)
    show "I (state_of r)"
    proof (cases "off e (Wrapper w e l) ?s")
      case (Exc v s')
      then show ?thesis using r i1 by auto
    next
      case (Ret u s1)
      then obtain r' where r': "call n B l args s1 = Some r'" and st: "state_of r = state_of r'"
        using r by (auto split: option.splits result.splits)
      have "I s1" using i1 Ret by simp
      moreover have "Q l" using q by (rule inner)
      ultimately have "I (state_of r')" using "5" [OF Ret] b r' by blast
      then show ?thesis using st by simp
    qed
  qed
next
  case (6 n B s)
  then show ?case by simp
next
  case (7 n B c cs s)
  show ?case
  proof (intro impI allI)
    fix r
    assume b: "\<forall>i xs. \<forall>c \<in> set (fst (B i xs)). C c" and i: "I s"
      and cs: "\<forall>x \<in> set (c # cs). C x"
      and r: "exec_all n B (c # cs) s = Some r"
    let ?first = "case c of
              CEmit e args \<Rightarrow>
                (case emit n B e args s of
                   None \<Rightarrow> None
                 | Some (Exc v s') \<Rightarrow> Some (Exc v s')
                 | Some (Ret b s') \<Rightarrow> Some (Ret () s'))
            | _ \<Rightarrow> Some (api c s)"
    have first: "\<forall>x. ?first = Some x \<longrightarrow> I (state_of x)"
    proof (cases "\<exists>e args. c = CEmit e args")
      case True
      then obtain e args where c: "c = CEmit e args" by blast
      show ?thesis
        using "7.IH"(1) [OF c] b i unfolding c
        by (auto split: option.splits result.splits)
    next
      case False
      then have "?first = Some (api c s)" by (cases c) simp_all
      moreover have "I (state_of (api c s))" using i cs by (intro api) simp_all
      ultimately show ?thesis by simp
    qed
    show "I (state_of r)"
    proof (cases ?first)
      case None
      then show ?thesis using r by simp
    next
      case (Some x)
      then have ix: "I (state_of x)" using first by blast
      show ?thesis
      proof (cases x)
        case (Exc v s')
        then show ?thesis using r Some ix by simp
      next
        case (Ret u s')
        then have "exec_all n B cs s' = Some r" using r Some by simp
        moreover have "I s'" using ix Ret by simp
        ultimately show ?thesis
          using "7.IH"(2) [OF Some Ret] b cs by auto
      qed
    qed
  qed
qed

lemma exec_all_invariant:
  fixes I :: "emitter \<Rightarrow> bool" and Q :: "fn \<Rightarrow> bool" and C :: "cmd \<Rightarrow> bool"
  assumes "\<And>c s. I s \<Longrightarrow> C c \<Longrightarrow> I (state_of (api c s))"
    and "\<And>s x. I s \<Longrightarrow> I (s\<lparr> calls := calls s @ [x] \<rparr>)"
    and "\<And>s r. I s \<Longrightarrow> I (attach r s)"
    and "\<And>s w e l. I s \<Longrightarrow> Q (Wrapper w e l) \<Longrightarrow> I (state_of (off e (Wrapper w e l) s))"
    and "\<And>w e l. Q (Wrapper w e l) \<Longrightarrow> Q l"
    and "\<And>s a k. I s \<Longrightarrow> k < length (arrays s a) \<Longrightarrow> Q (arrays s a ! k)"
    and "\<forall>i xs. \<forall>c \<in> set (fst (B i xs)). C c" "\<forall>c \<in> set cs. C c"
    and "I s" "exec_all n B cs s = Some r"
  shows "I (state_of r)"
proof -
  have "(\<forall>i xs. \<forall>c \<in> set (fst (B i xs)). C c) \<longrightarrow> I s \<longrightarrow> (\<forall>c \<in> set cs. C c) \<longrightarrow>
           (\<forall>r. exec_all n B cs s = Some r \<longrightarrow> I (state_of r))"
    by (rule dispatch_invariant(4) [where I = I and Q = Q and C = C]; fact assms(1-6))
  then show ?thesis using assms(7-10) by blast
qed

lemma run_ops_invariant:
  fixes I :: "emitter \<Rightarrow> bool" and Q :: "fn \<Rightarrow> bool" and C :: "cmd \<Rightarrow> bool"
  assumes "\<And>c s. I s \<Longrightarrow> C c \<Longrightarrow> I (state_of (api c s))"
    and "\<And>s x. I s \<Longrightarrow> I (s\<lparr> calls := calls s @ [x] \<rparr>)"
    and "\<And>s r. I s \<Longrightarrow> I (attach r s)"
    and "\<And>s w e l. I s \<Longrightarrow> Q (Wrapper w e l) \<Longrightarrow> I (state_of (off e (Wrapper w e l) s))"
    and "\<And>w e l. Q (Wrapper w e l) \<Longrightarrow> Q l"
    and "\<And>s a k. I s \<Longrightarrow> k < length (arrays s a) \<Longrightarrow> Q (arrays s a ! k)"
    and "\<forall>i xs. \<forall>c \<in> set (fst (B i xs)). C c"
  shows "\<forall>c \<in> set cs. C c \<Longrightarrow> I s \<Longrightarrow> run_ops n B cs s = Some s' \<Longrightarrow> I s'"
proof (induction cs arbitrary: s)
  case Nil
  then show ?case by simp
next
  case (Cons c cs)
  from Cons.prems(3) obtain r where r: "exec_all n B [c] s = Some r"
    and rest: "run_ops n B cs (state_of r) = Some s'"
    by (auto split: option.splits)
  have "\<forall>x \<in> set [c]. C x" using Cons.prems(1) by simp
  have "I (state_of r)"
    by (rule exec_all_invariant [where I = I and Q = Q and C = C and B = B and cs = "[c]" and s = s
          and n = n]; fact assms \<open>\<forall>x \<in> set [c]. C x\<close> Cons.prems(2) r)
  then show ?case using Cons.IH Cons.prems(1) rest by simp
qed

subsection \<open>The one-time diagnostic\<close>






lemma once_eq: "once e l s = on e (fst (createOnceWrapper e l s)) (snd (createOnceWrapper e l s))"
  by (simp add: once_def split: prod.splits)

lemma prependOnce_eq:
  "prependOnce e l s = prepend e (fst (createOnceWrapper e l s)) (snd (createOnceWrapper e l s))"
  by (simp add: prependOnce_def split: prod.splits)












subsection \<open>The once-index keeps creation order\<close>

lemma once_index_ordered_upd:
  "once_index_ordered s \<Longrightarrow> onceListeners t = onceListeners s \<Longrightarrow>
   next_wrapper t = next_wrapper s \<Longrightarrow> once_index_ordered t"
  by (simp add: once_index_ordered_def)

lemma emitMax_once_fields [simp]:
  "onceListeners (emitMaxListenersExceeded e s) = onceListeners s"
  "next_wrapper (emitMaxListenersExceeded e s) = next_wrapper s"
  by (simp_all add: emitMaxListenersExceeded_def split: slot.splits)

lemma on_once_index_ordered:
  assumes "once_index_ordered s"
  shows "once_index_ordered (state_of (on e f s))"
  by (rule once_index_ordered_upd [OF assms]) (simp_all add: on_def split: slot.splits)

lemma prepend_once_index_ordered:
  assumes "once_index_ordered s"
  shows "once_index_ordered (state_of (prepend e f s))"
  by (rule once_index_ordered_upd [OF assms]) (simp_all add: prepend_def split: slot.splits)

lemma sorted_wrt_snoc_wrapper:
  assumes "sorted_wrt created_before ws"
    and "\<forall>w \<in> set ws. \<exists>i e' l. w = Wrapper i e' l \<and> i < k"
  shows "sorted_wrt created_before (ws @ [Wrapper k e l])"
  using assms by (fastforce simp: sorted_wrt_append)

lemma createOnceWrapper_once_index_ordered:
  assumes "once_index_ordered s"
  shows "once_index_ordered (snd (createOnceWrapper e l s))"
  unfolding once_index_ordered_def
proof (intro allI impI)
  fix e' ws
  let ?t = "snd (createOnceWrapper e l s)"
  assume ws: "onceListeners ?t e' = Some ws"
  have old: "sorted_wrt created_before (get_once s x) \<and>
             (\<forall>w \<in> set (get_once s x). \<exists>i e' l. w = Wrapper i e' l \<and> i < next_wrapper s)" for x
    using assms by (auto simp: once_index_ordered_def get_once_def split: option.splits)
  have nw: "next_wrapper ?t = Suc (next_wrapper s)"
    by (simp add: createOnceWrapper_def Let_def)
  show "sorted_wrt created_before ws \<and>
        (\<forall>w \<in> set ws. \<exists>i e' l. w = Wrapper i e' l \<and> i < next_wrapper ?t)"
  proof (cases "e' = e")
    case True
    then have eq: "ws = get_once s e @ [Wrapper (next_wrapper s) e l]"
      using ws by (simp add: createOnceWrapper_def Let_def)
    have "sorted_wrt created_before ws"
      unfolding eq using old [of e] by (intro sorted_wrt_snoc_wrapper) auto
    moreover have "\<forall>w \<in> set ws. \<exists>i e' l. w = Wrapper i e' l \<and> i < next_wrapper ?t"
      unfolding eq nw using old [of e] by (auto simp: less_Suc_eq)
    ultimately show ?thesis by blast
  next
    case False
    then have "onceListeners s e' = Some ws"
      using ws by (simp add: createOnceWrapper_def Let_def)
    then have "ws = get_once s e'" by (simp add: get_once_def)
    then show ?thesis unfolding nw using old [of e'] by (auto simp: less_Suc_eq)
  qed
qed

lemma once_once_index_ordered:
  "once_index_ordered s \<Longrightarrow> once_index_ordered (state_of (once e f s))"
  unfolding once_eq by (intro on_once_index_ordered createOnceWrapper_once_index_ordered)

lemma prependOnce_once_index_ordered:
  "once_index_ordered s \<Longrightarrow> once_index_ordered (state_of (prependOnce e f s))"
  unfolding prependOnce_eq
  by (intro prepend_once_index_ordered createOnceWrapper_once_index_ordered)

lemma off_once_index_ordered:
  assumes "once_index_ordered s"
  shows "once_index_ordered (state_of (off e f s))"
proof (cases "get_events s e")
  case (Arr a)
  have old: "sorted_wrt created_before (get_once s e) \<and>
             (\<forall>w \<in> set (get_once s e). \<exists>i e' l. w = Wrapper i e' l \<and> i < next_wrapper s)"
    using assms by (auto simp: once_index_ordered_def get_once_def split: option.splits)
  then have "sorted_wrt created_before (filter P (get_once s e))" for P
    by (simp add: sorted_wrt_filter)
  then show ?thesis
    using assms old Arr
    by (auto simp: off_def Let_def once_index_ordered_def)
qed (simp_all add: off_def assms)

lemma off_matching_once_index_ordered:
  "once_index_ordered s \<Longrightarrow> once_index_ordered (state_of (off_matching e l xs s))"
proof (induction xs arbitrary: s)
  case Nil
  then show ?case by simp
next
  case (Cons x xs)
  show ?case
  proof (cases "x = l \<or> listener_of x = Some l")
    case False
    then show ?thesis using Cons by simp
  next
    case True
    have "once_index_ordered (state_of (off e l s))"
      using Cons.prems by (rule off_once_index_ordered)
    then show ?thesis
      using True Cons.IH by (cases "off e l s") simp_all
  qed
qed

lemma removeAllListeners_once_index_ordered:
  assumes "once_index_ordered s"
  shows "once_index_ordered (state_of (removeAllListeners eo lo s))"
proof -
  have "once_index_ordered (s\<lparr> events := ev, onceListeners := (onceListeners s)(x := None) \<rparr>)"
    for ev x
    using assms by (simp add: once_index_ordered_def)
  moreover have "once_index_ordered (s\<lparr> events := ev, onceListeners := Map.empty \<rparr>)" for ev
    by (simp add: once_index_ordered_def)
  ultimately show ?thesis
    using assms
    by (auto simp: removeAllListeners_def off_matching_once_index_ordered
        split: option.splits sum.splits)
qed

lemma api_once_index_ordered:
  assumes "once_index_ordered s"
  shows "once_index_ordered (state_of (api c s))"
proof (cases c)
  case (CSetMaxListeners m)
  have "once_index_ordered (s\<lparr> maxListeners := m \<rparr>)"
    by (rule once_index_ordered_upd [OF assms]) simp_all
  then show ?thesis using CSetMaxListeners by (simp add: setMaxListeners_def)
qed (simp_all add: assms on_once_index_ordered prepend_once_index_ordered
      once_once_index_ordered prependOnce_once_index_ordered off_once_index_ordered
      removeAllListeners_once_index_ordered)

lemma run_ops_once_index_ordered:
  assumes "once_index_ordered s" "run_ops n B cs s = Some s'"
  shows "once_index_ordered s'"
proof -
  have 1: "\<And>c s. once_index_ordered s \<Longrightarrow> True \<Longrightarrow> once_index_ordered (state_of (api c s))"
    by (rule api_once_index_ordered)
  have 2: "\<And>s x. once_index_ordered s \<Longrightarrow> once_index_ordered (s\<lparr> calls := calls s @ [x] \<rparr>)"
    by (simp add: once_index_ordered_def)
  have 3: "\<And>s r. once_index_ordered s \<Longrightarrow> once_index_ordered (attach r s)"
    by (rule once_index_ordered_upd) simp_all
  have 4: "\<And>s w e l. once_index_ordered s \<Longrightarrow> True \<Longrightarrow>
             once_index_ordered (state_of (off e (Wrapper w e l) s))"
    by (rule off_once_index_ordered)
  show ?thesis
    by (rule run_ops_invariant [where I = once_index_ordered and Q = "\<lambda>f. True"
          and C = "\<lambda>c. True" and B = B and cs = cs and s = s and n = n])
      (simp_all add: 1 2 3 4 assms)
qed

lemma sorted_wrt_last:
  "sorted_wrt R xs \<Longrightarrow> x \<in> set xs \<Longrightarrow> x \<noteq> last xs \<Longrightarrow> R x (last xs)"
  by (induction xs) (auto split: if_splits)

lemma off_target_latest:
  assumes "sorted_wrt created_before ws" "\<exists>w \<in> set ws. listener_of w = Some l"
  shows "off_target ws l \<in> set ws \<and> listener_of (off_target ws l) = Some l \<and>
         (\<forall>w \<in> set ws. listener_of w = Some l \<and> w \<noteq> off_target ws l \<longrightarrow>
              created_before w (off_target ws l))"
proof -
  let ?m = "filter (\<lambda>w. listener_of w = Some l) ws"
  have ne: "?m \<noteq> []" using assms(2) by (auto simp: filter_empty_conv)
  then have t: "off_target ws l = last ?m" by (simp add: off_target_def Let_def)
  have "last ?m \<in> set ?m" using ne by (rule last_in_set)
  then have 1: "last ?m \<in> set ws" "listener_of (last ?m) = Some l" by auto
  have s: "sorted_wrt created_before ?m" using assms(1) by (simp add: sorted_wrt_filter)
  have 2: "created_before w (last ?m)" if "w \<in> set ws" "listener_of w = Some l" "w \<noteq> last ?m" for w
    using sorted_wrt_last [OF s, of w] that by simp
  show ?thesis unfolding t using 1 2 by blast
qed

lemma off_target_plain:
  "\<not> (\<exists>w \<in> set ws. listener_of w = Some l) \<Longrightarrow> off_target ws l = l"
  by (auto simp: off_target_def Let_def filter_empty_conv)

text \<open>
  Claim C7. On an emitter obtained by construction and any sequence of public operations,
  let the event have entries. Then \<^verbatim>\<open>off(e, l)\<close> returns, and the entries and the
  once-index of the event are the former ones without the removal target. If some
  wrapper of the once-index wraps \<open>l\<close>, the target is such a wrapper and every other
  wrapper of the once-index that wraps \<open>l\<close> was created before it; if none does, the
  target is \<open>l\<close> itself.
\<close>

theorem off_removal_target:
  assumes "new_emitter d opt = Inr s0" "run_ops n B ops s0 = Some s" "get_events s e = Arr a"
  shows "\<exists>t. off e l s = Ret () t \<and>
             entries t e = filter (\<lambda>x. x \<noteq> off_target (get_once s e) l) (arrays s a) \<and>
             get_once t e = filter (\<lambda>w. w \<noteq> off_target (get_once s e) l) (get_once s e) \<and>
             (if \<exists>w \<in> set (get_once s e). listener_of w = Some l
              then off_target (get_once s e) l \<in> set (get_once s e) \<and>
                   listener_of (off_target (get_once s e) l) = Some l \<and>
                   (\<forall>w \<in> set (get_once s e).
                      listener_of w = Some l \<and> w \<noteq> off_target (get_once s e) l \<longrightarrow>
                      created_before w (off_target (get_once s e) l))
              else off_target (get_once s e) l = l)"
proof -
  have "once_index_ordered s0"
    using assms(1) by (auto simp: new_emitter_def initial_def once_index_ordered_def split: if_splits)
  then have "once_index_ordered s" using assms(2) by (rule run_ops_once_index_ordered)
  then have srt: "sorted_wrt created_before (get_once s e)"
    by (auto simp: once_index_ordered_def get_once_def split: option.splits)
  let ?tg = "off_target (get_once s e) l"
  let ?kept = "filter (\<lambda>x. x \<noteq> ?tg) (arrays s a)"
  let ?popped = "filter (\<lambda>w. w \<noteq> ?tg) (get_once s e)"
  let ?t = "s\<lparr> events := (if ?kept = [] then (events s)(e := None)
                               else (events s)(e \<mapsto> next_array s)),
               arrays := (arrays s)(next_array s := ?kept),
               next_array := Suc (next_array s),
               onceListeners := (if ?popped = [] then (onceListeners s)(e := None)
                                 else (onceListeners s)(e \<mapsto> ?popped)) \<rparr>"
  have off: "off e l s = Ret () ?t"
    using assms(3) by (simp add: off_def Let_def)
  have ent: "entries ?t e = ?kept"
    by (simp add: entries_def get_events_def)
  have onc: "get_once ?t e = ?popped"
    by (simp add: get_once_def)
  have tg: "if \<exists>w \<in> set (get_once s e). listener_of w = Some l
              then ?tg \<in> set (get_once s e) \<and> listener_of ?tg = Some l \<and>
                   (\<forall>w \<in> set (get_once s e).
                      listener_of w = Some l \<and> w \<noteq> ?tg \<longrightarrow> created_before w ?tg)
              else ?tg = l"
    using off_target_latest [OF srt, of l] off_target_plain [of "get_once s e" l]
    by (simp only: split: if_splits) blast
  show ?thesis
    using off ent onc tg by (intro exI [of _ ?t]) (simp only: simp_thms)
qed

text \<open>
  The instance of the claim: after \<^verbatim>\<open>on(e, L); once(e, L)\<close>, \<^verbatim>\<open>off(e, L)\<close> removes the
  once registration and keeps the plain one.
\<close>

theorem off_removal_target_witness:
  "off_target (get_once (after [COn ''e'' (Plain 5), COnce ''e'' (Plain 5)] (initial (Fin 10) False)) ''e'')
     (Plain 5) = Wrapper 0 ''e'' (Plain 5) \<and>
   entries (state_of (off ''e'' (Plain 5)
      (after [COn ''e'' (Plain 5), COnce ''e'' (Plain 5)] (initial (Fin 10) False)))) ''e'' =
     [Plain 5] \<and>
   get_once (state_of (off ''e'' (Plain 5)
      (after [COn ''e'' (Plain 5), COnce ''e'' (Plain 5)] (initial (Fin 10) False)))) ''e'' = []"
proof -
  let ?ops = "[COn ''e'' (Plain 5), COnce ''e'' (Plain 5)]"
  let ?s = "after ?ops (initial (Fin 10) False)"
  have n: "new_emitter (Fin 10) None = Inr (initial (Fin 10) False)"
    by (simp add: new_emitter_def)
  have r: "run_ops 0 demo ?ops (initial (Fin 10) False) = Some ?s"
    by (simp add: eval_defs)
  have a: "get_events ?s ''e'' = Arr 0" by (simp add: eval_defs)
  have v: "arrays ?s 0 = [Plain 5, Wrapper 0 ''e'' (Plain 5)]"
    "get_once ?s ''e'' = [Wrapper 0 ''e'' (Plain 5)]"
    by (simp_all add: eval_defs)
  from off_removal_target [OF n r a, of "Plain 5"] obtain t where
    t: "off ''e'' (Plain 5) ?s = Ret () t"
    "entries t ''e'' = filter (\<lambda>x. x \<noteq> off_target (get_once ?s ''e'') (Plain 5)) (arrays ?s 0)"
    "get_once t ''e'' = filter (\<lambda>w. w \<noteq> off_target (get_once ?s ''e'') (Plain 5)) (get_once ?s ''e'')"
    by blast
  have tg: "off_target [Wrapper 0 ''e'' (Plain 5)] (Plain 5) = Wrapper 0 ''e'' (Plain 5)"
    by (simp add: off_target_def)
  show ?thesis
    using t unfolding v tg by simp
qed

subsection \<open>The once-index and the registry hold the same wrappers\<close>














lemma get_once_emitMax [simp]: "get_once (emitMaxListenersExceeded e s) x = get_once s x"
  by (simp add: get_once_def)

















subsection \<open>A dispatch works on the array it started with\<close>


lemma emitMax_alloc_fields [simp]:
  "events (emitMaxListenersExceeded e s) = events s"
  "next_array (emitMaxListenersExceeded e s) = next_array s"
  "arrays (emitMaxListenersExceeded e s) = arrays s"
  "calls (emitMaxListenersExceeded e s) = calls s"
  by (simp_all add: emitMaxListenersExceeded_def split: slot.splits)























text \<open>
  \<^verbatim>\<open>prepend\<close> is the one registry change that reaches a running dispatch: it shifts
  the array in place, so the listener that prepends is invoked a second time and the last
  entry is not reached.
\<close>

lemma prepend_during_dispatch:
  "trace (emit (Suc 0) demo ''e'' [VNum 7]
     (after [COn ''e'' (Plain 10), COn ''e'' (Plain 2)] (initial (Fin 10) False))) =
     [(Plain 10, [VNum 7]), (Plain 10, [VNum 7])]"
  by (simp add: eval_defs)

end
